theory Spec2Isabelle
  imports Main "HOL-Library.Word"
begin

section \<open>JavaScript strings\<close>

text \<open>
  A JavaScript string is a sequence of UTF-16 code units. Literals of the source are ASCII,
  so \<open>lit\<close> maps each character of an Isabelle string to the code unit of the same number.
\<close>

type_synonym jsstring = "16 word list"

definition lit :: "string \<Rightarrow> jsstring" where
  "lit s = map (\<lambda>c. of_nat (of_char c)) s"

text \<open>
  \<open>String.prototype.trim\<close> removes WhiteSpace and LineTerminator code units from both ends:
  TAB, LF, VT, FF, CR, SP, NBSP, U+1680, U+2000..U+200A, LS, PS, U+202F, U+205F, U+3000, BOM.
\<close>

definition is_js_space :: "16 word \<Rightarrow> bool" where
  "is_js_space c = (c = 0x9 \<or> c = 0xA \<or> c = 0xB \<or> c = 0xC \<or> c = 0xD \<or> c = 0x20 \<or> c = 0xA0
     \<or> c = 0x1680 \<or> (0x2000 \<le> c \<and> c \<le> 0x200A) \<or> c = 0x2028 \<or> c = 0x2029
     \<or> c = 0x202F \<or> c = 0x205F \<or> c = 0x3000 \<or> c = 0xFEFF)"

definition trim :: "jsstring \<Rightarrow> jsstring" where
  "trim s = rev (dropWhile is_js_space (rev (dropWhile is_js_space s)))"

text \<open>
  \<open>s.indexOf(d)\<close>: the least index at which \<open>d\<close> occurs in \<open>s\<close>, or \<open>-1\<close>.
  \<open>s.includes(d)\<close>: whether \<open>d\<close> occurs in \<open>s\<close> at some index.
\<close>

fun indexOf :: "'a list \<Rightarrow> 'a list \<Rightarrow> int" where
  "indexOf [] d = (if d = [] then 0 else - 1)"
| "indexOf (x # xs) d =
     (if take (length d) (x # xs) = d then 0
      else (let r = indexOf xs d in if r = - 1 then - 1 else r + 1))"

definition js_includes :: "'a list \<Rightarrow> 'a list \<Rightarrow> bool" where
  "js_includes s d = list_ex (\<lambda>i. take (length d) (drop i s) = d) [0..<Suc (length s)]"

text \<open>
  \<open>s.substring(a)\<close> and \<open>s.substring(a, b)\<close>: both indices are clamped to \<open>0..length s\<close>,
  and the two-argument form swaps them when the first is the larger.
\<close>

definition clamp_index :: "'a list \<Rightarrow> int \<Rightarrow> nat" where
  "clamp_index s i = (if i < 0 then 0 else min (nat i) (length s))"

definition substring_from :: "'a list \<Rightarrow> int \<Rightarrow> 'a list" where
  "substring_from s a = drop (clamp_index s a) s"

definition substring :: "'a list \<Rightarrow> int \<Rightarrow> int \<Rightarrow> 'a list" where
  "substring s a b =
     (let a' = clamp_index s a; b' = clamp_index s b
      in take (max a' b' - min a' b') (drop (min a' b') s))"

text \<open>
  What "the first occurrence of \<open>d\<close> in \<open>s\<close> is at index \<open>i\<close>" means, stated without
  reference to \<open>indexOf\<close>.
\<close>

definition occurs_at :: "'a list \<Rightarrow> 'a list \<Rightarrow> nat \<Rightarrow> bool" where
  "occurs_at s d i = (i + length d \<le> length s \<and> take (length d) (drop i s) = d)"

definition first_occurrence :: "'a list \<Rightarrow> 'a list \<Rightarrow> nat \<Rightarrow> bool" where
  "first_occurrence s d i = (occurs_at s d i \<and> (\<forall>j<i. \<not> occurs_at s d j))"

text \<open>
  A delimiter pair occurs in \<open>s\<close> when the start delimiter occurs somewhere and the end
  delimiter occurs somewhere after it.
\<close>

definition pattern_occurs :: "'a list \<Rightarrow> 'a list \<times> 'a list \<Rightarrow> bool" where
  "pattern_occurs s p =
     (case p of (startDelim, endDelim) \<Rightarrow>
        list_ex (\<lambda>i. occurs_at s startDelim i \<and> js_includes (drop (i + length startDelim) s) endDelim)
          [0..<Suc (length s)])"


section \<open>Strategy A: extractKeywordsFromHtml\<close>

definition delimiters :: "(jsstring \<times> jsstring) list" where
  \<open>delimiters =
    [(lit ''&quot;terms&quot;:&quot;'', lit ''&quot;,''),
     (lit ''"terms":"'', lit ''",''),
     (lit ''terms='', lit ''&''),
     (lit ''"keyWords":"'', lit ''",''),
     (lit ''"keywords":"'', lit ''",'')]\<close>

text \<open>
  The body of the \<open>for\<close> loop for one delimiter pair: \<open>Some keywords\<close> is the \<open>return\<close>
  inside the loop, \<open>None\<close> falls through to the next iteration. Nothing in the body can throw
  on a string, so the \<open>catch\<close> branch has no case.
\<close>

definition tryDelimiter :: "jsstring \<Rightarrow> jsstring \<times> jsstring \<Rightarrow> jsstring option" where
  "tryDelimiter htmlContent p =
     (case p of (startDelim, endDelim) \<Rightarrow>
        if js_includes htmlContent startDelim then
          (let startIndex = indexOf htmlContent startDelim in
           if startIndex \<noteq> - 1 then
             (let afterStart = substring_from htmlContent (startIndex + int (length startDelim));
                  endIndex = indexOf afterStart endDelim in
              if endIndex \<noteq> - 1 then
                (let keywords = trim (substring afterStart 0 endIndex) in
                 if keywords \<noteq> [] then Some keywords else None)
              else None)
           else None)
        else None)"

fun scanDelimiters :: "jsstring \<Rightarrow> (jsstring \<times> jsstring) list \<Rightarrow> jsstring" where
  "scanDelimiters htmlContent [] = []"
| "scanDelimiters htmlContent (p # ps) =
     (case tryDelimiter htmlContent p of
        Some keywords \<Rightarrow> keywords
      | None \<Rightarrow> scanDelimiters htmlContent ps)"

definition extractKeywordsFromHtml :: "jsstring \<Rightarrow> jsstring" where
  "extractKeywordsFromHtml htmlContent =
     (if htmlContent = [] then [] else scanDelimiters htmlContent delimiters)"

text \<open>Example documents used below.\<close>

definition doc_blank_first :: jsstring where
  \<open>doc_blank_first =
     lit ''&quot;terms&quot;:&quot; &quot;,&quot;terms&quot;:&quot;x&quot;,"terms":"abc",terms=def&''\<close>

definition doc_entity_and_plain :: jsstring where
  \<open>doc_entity_and_plain = lit ''&quot;terms&quot;:&quot;a b &quot;,"terms":"c",''\<close>

definition doc_repeated_start :: jsstring where
  "doc_repeated_start = lit ''terms=&terms=abc&''"


section \<open>Promises, events and the browser pool\<close>

text \<open>
  The browser, the pages and the clock are outside the program. Every value that an awaited
  call of the source gets from them is a field of an environment record, so that the functions
  below are total functions of the environment and a theorem about all environments is a
  theorem about every behaviour of the browser. An awaited promise either resolves with a value
  or rejects with an error, of which the source reads the message only. Every awaited call is
  taken to settle; the one loop that may run forever, the polling of \<open>getBrowser\<close>, is
  modelled as such.

  A run records the calls it makes as a list of events, in order.
\<close>

datatype 'a outcome = Resolves 'a | Rejects jsstring

type_synonym browser = nat

datatype event =
    EvVersion browser
  | EvLaunch
  | EvSleep nat
  | EvNewPage
  | EvSetRequestInterception
  | EvSetUserAgent
  | EvSetViewport
  | EvGoto jsstring
  | EvWaitForTimeout nat
  | EvContent
  | EvExtractHtml
  | EvExtractSurface
  | EvAcceptCookies
  | EvClick string
  | EvClosePage
  | EvReturnBrowser browser
  | EvCloseBrowser browser

text \<open>
  The module state of the pool: the array \<open>browserPool\<close> (\<open>push\<close> appends, \<open>pop\<close> takes
  the last element) and the counter \<open>activeBrowsers\<close>. A session is identified by a number.
\<close>

record pool =
  browserPool :: "browser list"
  activeBrowsers :: int

definition MAX_BROWSERS :: int where
  "MAX_BROWSERS = 3"

text \<open>
  What \<open>getBrowser\<close> meets at its \<open>k\<close>-th attempt: whether \<open>browser.version()\<close> resolves,
  what \<open>puppeteer.launch\<close> gives, and what the other jobs do to the pool while the call is
  suspended, in \<open>await browser.version()\<close> and in the one-second sleep.
\<close>

record pool_env =
  version_resolves :: "nat \<Rightarrow> browser \<Rightarrow> bool"
  during_version :: "nat \<Rightarrow> pool \<Rightarrow> pool"
  launch_result :: "nat \<Rightarrow> browser outcome"
  during_sleep :: "nat \<Rightarrow> pool \<Rightarrow> pool"

text \<open>
  One pass through the body of \<open>getBrowser\<close>, up to its \<open>return\<close> or to the sleep before the
  recursive call. The check \<open>activeBrowsers < MAX_BROWSERS\<close> and the increment are not
  separated by an \<open>await\<close>. A session whose health check rejects is dropped by the empty
  \<open>catch\<close> block, with no change of the counter.
\<close>

datatype acquire_step = Acquired browser | LaunchFailed jsstring | MustWait

definition getBrowser_attempt :: "pool_env \<Rightarrow> nat \<Rightarrow> pool \<Rightarrow> acquire_step \<times> pool \<times> event list" where
  "getBrowser_attempt env k s =
     (let (reused, s1, tr1) =
            (if browserPool s \<noteq> [] then
               (let browser = last (browserPool s);
                    s' = during_version env k (s\<lparr>browserPool := butlast (browserPool s)\<rparr>)
                in (if version_resolves env k browser then Some browser else None,
                    s', [EvVersion browser]))
             else (None, s, []))
      in case reused of
           Some browser \<Rightarrow> (Acquired browser, s1, tr1)
         | None \<Rightarrow>
             if activeBrowsers s1 < MAX_BROWSERS then
               (let s2 = s1\<lparr>activeBrowsers := activeBrowsers s1 + 1\<rparr> in
                case launch_result env k of
                  Resolves browser \<Rightarrow> (Acquired browser, s2, tr1 @ [EvLaunch])
                | Rejects msg \<Rightarrow> (LaunchFailed msg, s2, tr1 @ [EvLaunch]))
             else (MustWait, s1, tr1 @ [EvSleep 1000]))"

text \<open>
  \<open>getBrowser\<close> itself: it returns the session, or rejects when the launch rejects, or sleeps
  1000 ms and calls itself. The value \<open>None\<close> stands for a call that polls forever. The trace
  argument collects the events of the earlier attempts.
\<close>

partial_function (option) getBrowser ::
  "pool_env \<Rightarrow> nat \<Rightarrow> pool \<Rightarrow> event list \<Rightarrow> (browser outcome \<times> pool \<times> event list) option" where
  "getBrowser env k s tr =
     (case getBrowser_attempt env k s of
        (Acquired browser, s', tr') \<Rightarrow> Some (Resolves browser, s', tr @ tr')
      | (LaunchFailed msg, s', tr') \<Rightarrow> Some (Rejects msg, s', tr @ tr')
      | (MustWait, s', tr') \<Rightarrow> getBrowser env (Suc k) (during_sleep env k s') (tr @ tr'))"

text \<open>
  \<open>returnBrowser(browser)\<close>: a null argument does nothing; otherwise the session goes back to
  the pool when the pool holds fewer than \<open>MAX_BROWSERS\<close>, and is closed, with the counter
  decremented, when it does not.
\<close>

definition returnBrowser :: "browser option \<Rightarrow> pool \<Rightarrow> pool \<times> event list" where
  "returnBrowser browser s =
     (case browser of
        None \<Rightarrow> (s, [])
      | Some b \<Rightarrow>
          if int (length (browserPool s)) < MAX_BROWSERS
          then (s\<lparr>browserPool := browserPool s @ [b]\<rparr>, [])
          else (s\<lparr>activeBrowsers := activeBrowsers s - 1\<rparr>, [EvCloseBrowser b]))"

text \<open>
  The condition under which an attempt does not have to wait, read off the pool and the
  environment: the pool is empty and the counter is below capacity, or the session on top of
  the pool is alive, or it is dead and the counter is below capacity once it has been popped.
  \<open>state_at_poll env k s n\<close> is the pool at the attempt number \<open>k + n\<close> of a call that
  started at attempt \<open>k\<close> in pool \<open>s\<close> and has had to wait at every attempt before.
\<close>

definition can_acquire :: "pool_env \<Rightarrow> nat \<Rightarrow> pool \<Rightarrow> bool" where
  "can_acquire env k s =
     (if browserPool s = [] then activeBrowsers s < MAX_BROWSERS
      else version_resolves env k (last (browserPool s))
         \<or> activeBrowsers (during_version env k (s\<lparr>browserPool := butlast (browserPool s)\<rparr>))
             < MAX_BROWSERS)"

fun state_at_poll :: "pool_env \<Rightarrow> nat \<Rightarrow> pool \<Rightarrow> nat \<Rightarrow> pool" where
  "state_at_poll env k s 0 = s"
| "state_at_poll env k s (Suc n) =
     state_at_poll env (Suc k) (during_sleep env k (fst (snd (getBrowser_attempt env k s)))) n"


text \<open>
  Two environments for examples. In \<open>quiet_env alive fresh\<close> no other job touches the pool,
  a session answers its health check when \<open>alive\<close> says so, and a launch gives the session
  \<open>fresh\<close>. In \<open>release_env b\<close> every session is alive and, during each one-second sleep
  of the caller, another job returns session \<open>b\<close> to the pool.
\<close>

definition quiet_env :: "(browser \<Rightarrow> bool) \<Rightarrow> browser \<Rightarrow> pool_env" where
  "quiet_env alive fresh =
     \<lparr>version_resolves = (\<lambda>k. alive), during_version = (\<lambda>k s. s),
      launch_result = (\<lambda>k. Resolves fresh), during_sleep = (\<lambda>k s. s)\<rparr>"

definition release_env :: "browser \<Rightarrow> pool_env" where
  "release_env b =
     \<lparr>version_resolves = (\<lambda>k b. True), during_version = (\<lambda>k s. s),
      launch_result = (\<lambda>k. Resolves 9),
      during_sleep = (\<lambda>k s. s\<lparr>browserPool := browserPool s @ [b]\<rparr>)\<rparr>"


section \<open>Awaited steps with a trace\<close>

text \<open>
  A sequence of awaited steps inside a \<open>try\<close> block: the first rejection ends the sequence
  and becomes its outcome, as the exception would.
\<close>

type_synonym 'a io = "'a outcome \<times> event list"

definition await :: "event \<Rightarrow> 'a outcome \<Rightarrow> 'a io" where
  "await ev r = (r, [ev])"

definition io_bind :: "'a io \<Rightarrow> ('a \<Rightarrow> 'b io) \<Rightarrow> 'b io" where
  "io_bind m f =
     (case m of
        (Rejects e, tr) \<Rightarrow> (Rejects e, tr)
      | (Resolves x, tr) \<Rightarrow> (case f x of (r, tr') \<Rightarrow> (r, tr @ tr')))"

section \<open>Strategy B: extractSurfaceKeywords\<close>

text \<open>
  What the page shows to \<open>extractSurfaceKeywords\<close>: some awaited call outside the loop over
  the elements rejects (\<open>bringToFront\<close>, \<open>waitForSelector\<close>, \<open>contentFrame\<close>, the wait,
  the query), or \<open>page.$('#master-1')\<close> is null, or the element has no content frame, or the
  query gives a list of elements, each with the outcome of reading its text. The function
  catches every rejection and always returns a string: the texts of the first 10 elements,
  trimmed, the non-empty ones joined by a comma and a space.
\<close>

datatype frame_scan =
    ScanRejects
  | NoFrameElement
  | NoContentFrame
  | Elements "jsstring outcome list"

definition elementTexts :: "jsstring outcome list \<Rightarrow> jsstring list" where
  "elementTexts elements =
     (let limitedElements = take 10 elements in
      map (\<lambda>i. if i < length limitedElements then
                  (case limitedElements ! i of
                     Resolves text \<Rightarrow> (if text \<noteq> [] then trim text else [])
                   | Rejects _ \<Rightarrow> [])
                else [])
          [0..<10])"

fun join :: "jsstring \<Rightarrow> jsstring list \<Rightarrow> jsstring" where
  "join sep [] = []"
| "join sep [x] = x"
| "join sep (x # y # ys) = x @ sep @ join sep (y # ys)"

definition collectSpanKeywords :: "jsstring list \<Rightarrow> jsstring" where
  "collectSpanKeywords kValues =
     join (lit '', '') (map trim (filter (\<lambda>v. trim v \<noteq> []) kValues))"

definition extractSurfaceKeywords :: "frame_scan \<Rightarrow> jsstring" where
  "extractSurfaceKeywords scan =
     (case scan of
        NoFrameElement \<Rightarrow> []
      | NoContentFrame \<Rightarrow> []
      | ScanRejects \<Rightarrow> collectSpanKeywords (replicate 10 [])
      | Elements elements \<Rightarrow> collectSpanKeywords (elementTexts elements))"

section \<open>acceptCookies\<close>

text \<open>
  \<open>acceptCookies\<close>: a first loop over all selectors with \<open>page.$x\<close>, where a selector with
  \<open>:has-text(\<close> is replaced by an XPath built from its quoted text, and a second loop with
  \<open>page.$\<close> over the selectors that contain a bracket or a hash. Each loop clicks the first
  element found and waits 500 ms; any rejection inside an iteration moves on to the next
  selector. \<open>quoted_text\<close> is the group of the regular expression \<open>/"([^"]+)"/\<close>: the
  first non-empty run of characters other than the double quote that stands between two
  double quotes.
\<close>

definition selectors :: "string list" where
  \<open>selectors =
    [''button:has-text("Accept")'',
     ''button:has-text("Agree")'',
     ''button:has-text("OK")'',
     ''button:has-text("Allow")'',
     ''a:has-text("Accept")'',
     ''button[class*="accept"]'',
     ''button[class*="agree"]'',
     ''button[class*="consent"]'',
     ''[id*="accept"]'',
     ''[id*="consent"]'']\<close>

fun quoted_text :: "string \<Rightarrow> string option" where
  "quoted_text [] = None"
| "quoted_text (c # cs) =
     (if c = CHR 0x22 then
        (let t = takeWhile (\<lambda>x. x \<noteq> CHR 0x22) cs in
         if t \<noteq> [] \<and> length t < length cs then Some t else quoted_text cs)
      else quoted_text cs)"

definition xpath_of :: "string \<Rightarrow> string option" where
  \<open>xpath_of selector =
     (if js_includes selector '':has-text(''
      then (case quoted_text selector of
              Some t \<Rightarrow> Some (''//button[contains(text(), "'' @ t @ ''")]'')
            | None \<Rightarrow> None)
      else Some selector)\<close>

record cookie_env =
  xpath_matches :: "string \<Rightarrow> nat outcome"
  css_matches :: "string \<Rightarrow> bool outcome"
  click_result :: "string \<Rightarrow> unit outcome"
  dismiss_wait_result :: "unit outcome"

definition clickAndWait :: "cookie_env \<Rightarrow> string \<Rightarrow> bool \<times> event list" where
  "clickAndWait env q =
     (case click_result env q of
        Rejects _ \<Rightarrow> (False, [EvClick q])
      | Resolves _ \<Rightarrow>
          (case dismiss_wait_result env of
             Rejects _ \<Rightarrow> (False, [EvClick q, EvWaitForTimeout 500])
           | Resolves _ \<Rightarrow> (True, [EvClick q, EvWaitForTimeout 500])))"

fun xpathLoop :: "cookie_env \<Rightarrow> string list \<Rightarrow> bool \<times> event list" where
  "xpathLoop env [] = (False, [])"
| "xpathLoop env (selector # rest) =
     (case xpath_of selector of
        None \<Rightarrow> xpathLoop env rest
      | Some xpath \<Rightarrow>
          (case xpath_matches env xpath of
             Rejects _ \<Rightarrow> xpathLoop env rest
           | Resolves n \<Rightarrow>
               if n > 0 then
                 (case clickAndWait env xpath of
                    (True, tr) \<Rightarrow> (True, tr)
                  | (False, tr) \<Rightarrow> (case xpathLoop env rest of (r, tr') \<Rightarrow> (r, tr @ tr')))
               else xpathLoop env rest))"

fun cssLoop :: "cookie_env \<Rightarrow> string list \<Rightarrow> bool \<times> event list" where
  "cssLoop env [] = (False, [])"
| "cssLoop env (selector # rest) =
     (case css_matches env selector of
        Rejects _ \<Rightarrow> cssLoop env rest
      | Resolves found \<Rightarrow>
          if found then
            (case clickAndWait env selector of
               (True, tr) \<Rightarrow> (True, tr)
             | (False, tr) \<Rightarrow> (case cssLoop env rest of (r, tr') \<Rightarrow> (r, tr @ tr')))
          else cssLoop env rest)"

definition acceptCookies :: "cookie_env \<Rightarrow> bool \<times> event list" where
  "acceptCookies env =
     (case xpathLoop env selectors of
        (True, tr) \<Rightarrow> (True, tr)
      | (False, tr) \<Rightarrow>
          (case cssLoop env (filter (\<lambda>s. js_includes s ''['' \<or> js_includes s ''#'') selectors) of
             (r, tr') \<Rightarrow> (r, tr @ tr')))"


section \<open>processUrl\<close>

text \<open>
  The result object and the environment of one run of \<open>processUrl\<close>: the two readings of
  \<open>Date.now()\<close> (at entry, and where the result object is built), the outcome of each
  awaited page operation in the order of the source, the document of the first and of the
  second \<open>page.content()\<close>, what the frame scan meets at the first and second pass, and what
  the other jobs do to the pool while this one runs.
\<close>

record ExtractionResult =
  scraped_keywords :: jsstring
  surface_keywords :: jsstring
  success :: bool
  error :: jsstring
  processing_time_ms :: int

record page_env =
  clock_start :: int
  clock_end :: int
  newPage_result :: "unit outcome"
  setRequestInterception_result :: "unit outcome"
  setUserAgent_result :: "unit outcome"
  setViewport_result :: "unit outcome"
  goto_result :: "unit outcome"
  settle_result :: "unit outcome"
  content_result :: "nat \<Rightarrow> jsstring outcome"
  frame_result :: "nat \<Rightarrow> frame_scan"
  cookies :: cookie_env
  retry_wait_result :: "unit outcome"
  during_job :: "pool \<Rightarrow> pool"

text \<open>
  \<open>failure\<close> is the object both \<open>catch\<close> blocks return. \<open>navigate\<close> is the inner
  \<open>try\<close> block, \<open>retryAfterCookies\<close> the body of the \<open>if\<close> that retries, \<open>extractAll\<close>
  the code from the first \<open>page.content()\<close> to the normal \<open>return\<close>, \<open>tryBody\<close> the outer
  \<open>try\<close> block after the session has been acquired, and \<open>processUrl\<close> adds the acquisition,
  the outer \<open>catch\<close> and the \<open>finally\<close> block: the page is closed when \<open>page\<close> was
  assigned, and the session is returned when \<open>browser\<close> was assigned.
\<close>

definition failure :: "page_env \<Rightarrow> jsstring \<Rightarrow> ExtractionResult" where
  "failure env msg =
     \<lparr>scraped_keywords = [], surface_keywords = [], success = False, error = msg,
      processing_time_ms = clock_end env - clock_start env\<rparr>"

definition navigate :: "page_env \<Rightarrow> jsstring \<Rightarrow> unit io" where
  "navigate env url =
     io_bind (await (EvGoto url) (goto_result env)) (\<lambda>_.
       await (EvWaitForTimeout 2000) (settle_result env))"

definition retryAfterCookies :: "page_env \<Rightarrow> (jsstring \<times> jsstring) io" where
  "retryAfterCookies env =
     io_bind (Resolves (), EvAcceptCookies # snd (acceptCookies (cookies env))) (\<lambda>_.
     io_bind (await (EvWaitForTimeout 2000) (retry_wait_result env)) (\<lambda>_.
     io_bind (await EvContent (content_result env 2)) (\<lambda>newPageSource.
       (Resolves (extractKeywordsFromHtml newPageSource, extractSurfaceKeywords (frame_result env 2)),
        [EvExtractHtml, EvExtractSurface]))))"

definition extractAll :: "page_env \<Rightarrow> ExtractionResult io" where
  "extractAll env =
     io_bind (await EvContent (content_result env 1)) (\<lambda>pageSource.
     io_bind (Resolves (extractKeywordsFromHtml pageSource, extractSurfaceKeywords (frame_result env 1)),
              [EvExtractHtml, EvExtractSurface]) (\<lambda>(scrapedKeywords, surfaceKeywords).
     io_bind (if scrapedKeywords = [] \<and> surfaceKeywords = []
              then retryAfterCookies env
              else (Resolves (scrapedKeywords, surfaceKeywords), [])) (\<lambda>(scrapedKeywords, surfaceKeywords).
       (Resolves \<lparr>scraped_keywords = scrapedKeywords, surface_keywords = surfaceKeywords,
                  success = True, error = [],
                  processing_time_ms = clock_end env - clock_start env\<rparr>, []))))"

definition tryBody :: "page_env \<Rightarrow> jsstring \<Rightarrow> ExtractionResult io" where
  "tryBody env url =
     io_bind (await EvNewPage (newPage_result env)) (\<lambda>_.
     io_bind (await EvSetRequestInterception (setRequestInterception_result env)) (\<lambda>_.
     io_bind (await EvSetUserAgent (setUserAgent_result env)) (\<lambda>_.
     io_bind (await EvSetViewport (setViewport_result env)) (\<lambda>_.
       (case navigate env url of
          (Rejects timeoutError, tr) \<Rightarrow>
            (Resolves (failure env (lit ''Timeout: '' @ timeoutError)), tr)
        | (Resolves _, tr) \<Rightarrow> io_bind (Resolves (), tr) (\<lambda>_. extractAll env))))))"

definition processUrl ::
  "pool_env \<Rightarrow> page_env \<Rightarrow> jsstring \<Rightarrow> jsstring \<Rightarrow> pool \<Rightarrow> (ExtractionResult \<times> pool \<times> event list) option" where
  "processUrl penv env url parserCountry s =
     (case getBrowser penv 0 s [] of
        None \<Rightarrow> None
      | Some (acquired, s1, tr0) \<Rightarrow>
          (let browser = (case acquired of Resolves b \<Rightarrow> Some b | Rejects _ \<Rightarrow> None);
               (r, tr1) = (case acquired of
                              Resolves b \<Rightarrow> tryBody env url
                            | Rejects msg \<Rightarrow> (Rejects msg, []));
               page = (browser \<noteq> None \<and> newPage_result env = Resolves ());
               result = (case r of Resolves res \<Rightarrow> res | Rejects msg \<Rightarrow> failure env msg);
               tr2 = (if page then [EvClosePage] else []);
               (s2, tr3) = (case browser of
                              Some b \<Rightarrow> (case returnBrowser (Some b) (during_job env s1) of
                                           (s', tr') \<Rightarrow> (s', EvReturnBrowser b # tr'))
                            | None \<Rightarrow> (during_job env s1, []))
           in Some (result, s2, tr0 @ tr1 @ tr2 @ tr3)))"


section \<open>The /extract handler\<close>

text \<open>
  The module state of the server: the two counters, and the state of the limiter. A request
  body is absent, or carries a \<open>url\<close> field or none; \<open>url_parses\<close> says whether
  \<open>new URL(url)\<close> succeeds. The handler runs without interruption from its first line to
  \<open>await limit(...)\<close> (\<open>extract_request\<close>), and resumes when the pipeline of its job has
  settled (\<open>extract_resume\<close>; \<open>responds\<close> tells whether writing the response succeeds,
  otherwise the \<open>catch\<close> block runs).
\<close>

type_synonym job = nat

record server =
  activeRequests :: int
  queuedRequests :: int
  limit_running :: "job list"
  limit_pending :: "job list"

definition MAX_QUEUED :: int where
  "MAX_QUEUED = 10"

definition concurrency :: nat where
  "concurrency = 3"

definition initial_server :: server where
  "initial_server = \<lparr>activeRequests = 0, queuedRequests = 0, limit_running = [], limit_pending = []\<rparr>"

text \<open>
  Modelled from the spec: the limiter \<open>limit = pLimit(3)\<close> comes from the p-limit package, whose
  code is not among the sources. A function handed to it starts at once when fewer than
  \<open>concurrency\<close> functions are running and otherwise waits in a first-in first-out queue;
  when a running function settles, the head of the queue starts.
\<close>

definition limit_call :: "job \<Rightarrow> server \<Rightarrow> server" where
  "limit_call j s =
     (if length (limit_running s) < concurrency
      then s\<lparr>limit_running := limit_running s @ [j]\<rparr>
      else s\<lparr>limit_pending := limit_pending s @ [j]\<rparr>)"

definition limit_settle :: "job \<Rightarrow> server \<Rightarrow> server" where
  "limit_settle j s =
     (let running = remove1 j (limit_running s) in
      case limit_pending s of
        [] \<Rightarrow> s\<lparr>limit_running := running\<rparr>
      | next # rest \<Rightarrow> s\<lparr>limit_running := running @ [next], limit_pending := rest\<rparr>)"

datatype request = NoBody | Body "jsstring option"

datatype response = Busy503 | BadRequest400 string | ServerError500 | Awaiting | Ok200

definition extract_request ::
  "(jsstring \<Rightarrow> bool) \<Rightarrow> job \<Rightarrow> request \<Rightarrow> server \<Rightarrow> response \<times> server" where
  "extract_request url_parses j req s =
     (if queuedRequests s \<ge> MAX_QUEUED then (Busy503, s)
      else
        (let s1 = s\<lparr>queuedRequests := queuedRequests s + 1\<rparr> in
         case req of
           NoBody \<Rightarrow>
             (ServerError500,
              s1\<lparr>queuedRequests := max 0 (queuedRequests s1 - 1),
                 activeRequests := max 0 (activeRequests s1 - 1)\<rparr>)
         | Body url \<Rightarrow>
             if url = None \<or> url = Some [] then
               (BadRequest400 ''URL is required'', s1\<lparr>queuedRequests := queuedRequests s1 - 1\<rparr>)
             else if \<not> url_parses (the url) then
               (BadRequest400 ''Invalid URL format'', s1\<lparr>queuedRequests := queuedRequests s1 - 1\<rparr>)
             else
               (Awaiting,
                limit_call j (s1\<lparr>queuedRequests := queuedRequests s1 - 1,
                                  activeRequests := activeRequests s1 + 1\<rparr>))))"

definition extract_resume :: "job \<Rightarrow> bool \<Rightarrow> server \<Rightarrow> response \<times> server" where
  "extract_resume j responds s =
     (let s1 = limit_settle j s;
          s2 = s1\<lparr>activeRequests := activeRequests s1 - 1\<rparr>
      in if responds then (Ok200, s2)
         else (ServerError500,
               s2\<lparr>queuedRequests := max 0 (queuedRequests s2 - 1),
                  activeRequests := max 0 (activeRequests s2 - 1)\<rparr>))"

datatype server_event = Submit job request | Settle job bool

fun server_step :: "(jsstring \<Rightarrow> bool) \<Rightarrow> server \<Rightarrow> server_event \<Rightarrow> response option \<times> server" where
  "server_step url_parses s (Submit j req) =
     (case extract_request url_parses j req s of (r, s') \<Rightarrow> (Some r, s'))"
| "server_step url_parses s (Settle j responds) =
     (if j \<in> set (limit_running s)
      then (case extract_resume j responds s of (r, s') \<Rightarrow> (Some r, s'))
      else (None, s))"

fun server_run :: "(jsstring \<Rightarrow> bool) \<Rightarrow> server \<Rightarrow> server_event list \<Rightarrow> response option list \<times> server" where
  "server_run url_parses s [] = ([], s)"
| "server_run url_parses s (e # es) =
     (case server_step url_parses s e of
        (r, s') \<Rightarrow> (case server_run url_parses s' es of (rs, s'') \<Rightarrow> (r # rs, s'')))"

definition burst :: "nat \<Rightarrow> server_event list" where
  "burst n = map (\<lambda>j. Submit j (Body (Some (lit ''http://a.b/'')))) [1..<Suc n]"


section \<open>Vocabulary of the properties and example environments\<close>

text \<open>
  The events a call of \<open>getBrowser\<close> can record, and those \<open>acceptCookies\<close> can record.
\<close>

fun pool_event :: "event \<Rightarrow> bool" where
  "pool_event (EvVersion b) = True"
| "pool_event EvLaunch = True"
| "pool_event (EvSleep ms) = True"
| "pool_event e = False"


text \<open>
  What \<open>processUrl\<close> returns for the outcome of its \<open>try\<close> block: the value of a
  \<open>return\<close> inside it, or the failure record built by the outer \<open>catch\<close>.
\<close>

definition resultOf :: "page_env \<Rightarrow> ExtractionResult io \<Rightarrow> ExtractionResult" where
  "resultOf env m = (case fst m of Resolves res \<Rightarrow> res | Rejects msg \<Rightarrow> failure env msg)"









text \<open>
  Example environments: a page with no consent element, a page with a button that the first
  XPath query finds, a page on which every operation resolves (its document is \<open>first\<close> at
  the first read and \<open>second\<close> at the second, it has no \<open>#master-1\<close> frame, and the clock
  reads 1000 at the start and 4500 at the end), and the pool before any launch.
\<close>

definition quiet_cookies :: cookie_env where
  "quiet_cookies =
     \<lparr>xpath_matches = (\<lambda>q. Resolves 0), css_matches = (\<lambda>q. Resolves False),
      click_result = (\<lambda>q. Resolves ()), dismiss_wait_result = Resolves ()\<rparr>"


definition steady_page :: "jsstring \<Rightarrow> jsstring \<Rightarrow> page_env" where
  "steady_page first second =
     \<lparr>clock_start = 1000, clock_end = 4500,
      newPage_result = Resolves (), setRequestInterception_result = Resolves (),
      setUserAgent_result = Resolves (), setViewport_result = Resolves (),
      goto_result = Resolves (), settle_result = Resolves (),
      content_result = (\<lambda>n. Resolves (if n = 1 then first else second)),
      frame_result = (\<lambda>n. NoFrameElement),
      cookies = quiet_cookies, retry_wait_result = Resolves (),
      during_job = (\<lambda>s. s)\<rparr>"

definition empty_pool :: pool where
  "empty_pool = \<lparr>browserPool = [], activeBrowsers = 0\<rparr>"



section \<open>Properties of the HTML pattern scan\<close>

lemma occurs_at_Nil: "occurs_at [] d i = (d = [] \<and> i = 0)"
  by (auto simp: occurs_at_def)

lemma occurs_at_Cons_0: "occurs_at (x # xs) d 0 = (take (length d) (x # xs) = d)"
proof -
  have "take (length d) (x # xs) = d \<Longrightarrow> length d \<le> Suc (length xs)"
  proof -
    assume a: "take (length d) (x # xs) = d"
    then have "length (take (length d) (x # xs)) = length d" by simp
    then show ?thesis by simp
  qed
  then show ?thesis by (auto simp: occurs_at_def)
qed

lemma occurs_at_Cons_Suc: "occurs_at (x # xs) d (Suc j) = occurs_at xs d j"
  by (simp add: occurs_at_def)

lemma indexOf_lower: "- 1 \<le> indexOf s d"
  by (induction s) (auto simp: Let_def)

lemma indexOf_none: "indexOf s d = - 1 \<longleftrightarrow> (\<forall>i. \<not> occurs_at s d i)"
proof (induction s)
  case Nil
  show ?case by (auto simp: occurs_at_Nil)
next
  case (Cons x xs)
  show ?case
  proof (cases "take (length d) (x # xs) = d")
    case True
    then have "occurs_at (x # xs) d 0" by (simp add: occurs_at_Cons_0)
    with True show ?thesis by auto
  next
    case False
    have lo: "- 1 \<le> indexOf xs d" by (rule indexOf_lower)
    have "(\<forall>i. \<not> occurs_at (x # xs) d i) \<longleftrightarrow> (\<forall>j. \<not> occurs_at xs d j)"
    proof
      assume a: "\<forall>i. \<not> occurs_at (x # xs) d i"
      show "\<forall>j. \<not> occurs_at xs d j"
      proof
        fix j from a have "\<not> occurs_at (x # xs) d (Suc j)" by blast
        then show "\<not> occurs_at xs d j" by (simp add: occurs_at_Cons_Suc)
      qed
    next
      assume a: "\<forall>j. \<not> occurs_at xs d j"
      show "\<forall>i. \<not> occurs_at (x # xs) d i"
      proof
        fix i show "\<not> occurs_at (x # xs) d i"
          using a False by (cases i) (simp_all add: occurs_at_Cons_0 occurs_at_Cons_Suc)
      qed
    qed
    with False Cons lo show ?thesis by (auto simp: Let_def)
  qed
qed

lemma indexOf_first: "indexOf s d = int i \<longleftrightarrow> first_occurrence s d i"
proof (induction s arbitrary: i)
  case Nil
  show ?case by (auto simp: first_occurrence_def occurs_at_Nil)
next
  case (Cons x xs)
  show ?case
  proof (cases "take (length d) (x # xs) = d")
    case True
    then have o: "occurs_at (x # xs) d 0" by (simp add: occurs_at_Cons_0)
    show ?thesis
    proof (cases i)
      case 0
      with True o show ?thesis by (simp add: first_occurrence_def)
    next
      case (Suc j)
      with True o show ?thesis by (auto simp: first_occurrence_def)
    qed
  next
    case False
    then have no: "\<not> occurs_at (x # xs) d 0" by (simp add: occurs_at_Cons_0)
    have lo: "- 1 \<le> indexOf xs d" by (rule indexOf_lower)
    show ?thesis
    proof (cases i)
      case 0
      with False no lo show ?thesis by (auto simp: first_occurrence_def Let_def)
    next
      case (Suc j)
      have "first_occurrence (x # xs) d (Suc j) \<longleftrightarrow> first_occurrence xs d j"
      proof -
        have "(\<forall>k<Suc j. \<not> occurs_at (x # xs) d k) \<longleftrightarrow> (\<forall>k<j. \<not> occurs_at xs d k)"
        proof
          assume a: "\<forall>k<Suc j. \<not> occurs_at (x # xs) d k"
          show "\<forall>k<j. \<not> occurs_at xs d k"
          proof (intro allI impI)
            fix k assume "k < j"
            with a have "\<not> occurs_at (x # xs) d (Suc k)" by simp
            then show "\<not> occurs_at xs d k" by (simp add: occurs_at_Cons_Suc)
          qed
        next
          assume a: "\<forall>k<j. \<not> occurs_at xs d k"
          show "\<forall>k<Suc j. \<not> occurs_at (x # xs) d k"
          proof (intro allI impI)
            fix k assume "k < Suc j"
            then show "\<not> occurs_at (x # xs) d k"
              using a no by (cases k) (simp_all add: occurs_at_Cons_Suc)
          qed
        qed
        then show ?thesis by (simp add: first_occurrence_def occurs_at_Cons_Suc)
      qed
      moreover have "indexOf (x # xs) d = int (Suc j) \<longleftrightarrow> indexOf xs d = int j"
        using False lo by (auto simp: Let_def)
      ultimately show ?thesis using Cons Suc by simp
    qed
  qed
qed

lemma includes_occurs: "js_includes s d \<longleftrightarrow> (\<exists>i. occurs_at s d i)"
proof
  assume "js_includes s d"
  then obtain i where i: "i \<le> length s" and t: "take (length d) (drop i s) = d"
    unfolding js_includes_def list_ex_iff by (auto simp del: upt_Suc simp: less_Suc_eq_le)
  from t have "length (take (length d) (drop i s)) = length d" by simp
  then have "min (length d) (length s - i) = length d" by simp
  with i have "i + length d \<le> length s" by arith
  with t show "\<exists>i. occurs_at s d i" unfolding occurs_at_def by blast
next
  assume "\<exists>i. occurs_at s d i"
  then obtain i where le: "i + length d \<le> length s" and t: "take (length d) (drop i s) = d"
    unfolding occurs_at_def by blast
  from le have "i \<in> set [0..<Suc (length s)]" by (simp del: upt_Suc)
  with t show "js_includes s d" unfolding js_includes_def list_ex_iff by blast
qed

lemma includes_indexOf: "js_includes s d \<longleftrightarrow> indexOf s d \<noteq> - 1"
  by (simp add: includes_occurs indexOf_none)

lemma tryDelimiter_first:
  assumes s: "first_occurrence h s i"
    and e: "first_occurrence (drop (i + length s) h) e j"
  shows "tryDelimiter h (s, e) =
     (let k = trim (take j (drop (i + length s) h)) in if k = [] then None else Some k)"
proof -
  from s have ix: "indexOf h s = int i" by (simp add: indexOf_first)
  then have inc: "js_includes h s" by (simp add: includes_indexOf)
  from s have le: "i + length s \<le> length h" by (simp add: first_occurrence_def occurs_at_def)
  then have ss: "substring_from h (int i + int (length s)) = drop (i + length s) h"
    by (simp add: substring_from_def clamp_index_def nat_add_distrib)
  from e have ie: "indexOf (drop (i + length s) h) e = int j" by (simp add: indexOf_first)
  from e have je: "j \<le> length (drop (i + length s) h)" by (simp add: first_occurrence_def occurs_at_def)
  then have sb: "substring (drop (i + length s) h) 0 (int j) = take j (drop (i + length s) h)"
    by (simp add: substring_def clamp_index_def Let_def)
  show ?thesis
    using inc ix ss ie sb by (simp add: tryDelimiter_def Let_def)
qed

lemma tryDelimiter_no_end:
  assumes s: "first_occurrence h s i"
    and e: "\<not> js_includes (drop (i + length s) h) e"
  shows "tryDelimiter h (s, e) = None"
proof -
  from s have ix: "indexOf h s = int i" by (simp add: indexOf_first)
  from s have le: "i + length s \<le> length h" by (simp add: first_occurrence_def occurs_at_def)
  then have ss: "substring_from h (int i + int (length s)) = drop (i + length s) h"
    by (simp add: substring_from_def clamp_index_def nat_add_distrib)
  from e have "indexOf (drop (i + length s) h) e = - 1" by (simp add: includes_indexOf)
  with ix ss show ?thesis by (simp add: tryDelimiter_def Let_def)
qed

lemma tryDelimiter_absent: "\<not> js_includes h s \<Longrightarrow> tryDelimiter h (s, e) = None"
  by (simp add: tryDelimiter_def)

lemma scanDelimiters_skip:
  "tryDelimiter h p = None \<Longrightarrow> scanDelimiters h (before @ p # rest) = scanDelimiters h (before @ rest)"
  by (induction before) (auto split: option.splits)

lemma scanDelimiters_none:
  "\<forall>p\<in>set ps. tryDelimiter h p = None \<Longrightarrow> scanDelimiters h ps = []"
  by (induction ps) auto


lemma pattern_occursI:
  assumes "occurs_at h s i" and "js_includes (drop (i + length s) h) e"
  shows "pattern_occurs h (s, e)"
proof -
  from assms(1) have "i \<in> set [0..<Suc (length h)]" by (simp add: occurs_at_def del: upt_Suc)
  with assms show ?thesis unfolding pattern_occurs_def list_ex_iff by auto
qed

lemma tryDelimiter_Some_pattern:
  assumes "tryDelimiter h (s, e) = Some k"
  shows "pattern_occurs h (s, e)"
proof -
  from assms have inc: "js_includes h s" by (simp add: tryDelimiter_def split: if_splits)
  then have ne: "indexOf h s \<noteq> - 1" by (simp add: includes_indexOf)
  have "- 1 \<le> indexOf h s" by (rule indexOf_lower)
  with ne have "0 \<le> indexOf h s" by arith
  then obtain i where ix: "indexOf h s = int i" using nonneg_int_cases by blast
  then have fo: "first_occurrence h s i" by (simp add: indexOf_first)
  then have oc: "occurs_at h s i" by (simp add: first_occurrence_def)
  have "js_includes (drop (i + length s) h) e"
  proof (rule ccontr)
    assume "\<not> js_includes (drop (i + length s) h) e"
    with fo have "tryDelimiter h (s, e) = None" by (rule tryDelimiter_no_end)
    with assms show False by simp
  qed
  with oc show ?thesis by (rule pattern_occursI)
qed

lemma delimiters_start_nonempty: "(s, e) \<in> set delimiters \<Longrightarrow> s \<noteq> []"
  by (auto simp: delimiters_def lit_def)

lemmas string_eval = lit_def includes_indexOf substring_from_def substring_def clamp_index_def
  trim_def is_js_space_def tryDelimiter_def Let_def

text \<open>
  Claim C10. For each delimiter pair only the first occurrence of the start delimiter counts.
  Let the pair \<open>(startDelim, endDelim)\<close> stand anywhere in the delimiter list and let the
  first occurrence of \<open>startDelim\<close> in the document be at index \<open>i\<close>. If the text after
  that occurrence does not contain \<open>endDelim\<close>, or the text up to the first \<open>endDelim\<close>
  trims to the empty string, then the pair yields nothing and the result of the function is
  the result of the loop over the remaining pairs, whatever follows in the document: later
  occurrences of \<open>startDelim\<close> are never read, also when one of them is followed by a
  non-empty match (as in the example \<open>terms=&terms=abc&\<close>, where the result is empty).
\<close>

theorem first_occurrence_only:
  assumes d: "delimiters = before @ (startDelim, endDelim) # rest"
    and s: "first_occurrence htmlContent startDelim i"
    and a: "afterStart = drop (i + length startDelim) htmlContent"
    and e: "\<not> js_includes afterStart endDelim
            \<or> (first_occurrence afterStart endDelim j \<and> trim (take j afterStart) = [])"
  shows "tryDelimiter htmlContent (startDelim, endDelim) = None
       \<and> extractKeywordsFromHtml htmlContent = scanDelimiters htmlContent (before @ rest)"
proof -
  have none: "tryDelimiter htmlContent (startDelim, endDelim) = None"
  proof (cases "js_includes afterStart endDelim")
    case False
    with s a show ?thesis by (simp add: tryDelimiter_no_end)
  next
    case True
    with e have f: "first_occurrence afterStart endDelim j" and t: "trim (take j afterStart) = []"
      by auto
    from s f[unfolded a] have "tryDelimiter htmlContent (startDelim, endDelim) =
        (let k = trim (take j (drop (i + length startDelim) htmlContent)) in if k = [] then None else Some k)"
      by (rule tryDelimiter_first)
    with t a show ?thesis by simp
  qed
  have "(startDelim, endDelim) \<in> set delimiters" unfolding d by simp
  then have "startDelim \<noteq> []" by (rule delimiters_start_nonempty)
  with s have "htmlContent \<noteq> []" by (auto simp: first_occurrence_def occurs_at_def)
  then have "extractKeywordsFromHtml htmlContent = scanDelimiters htmlContent delimiters"
    by (simp add: extractKeywordsFromHtml_def)
  also have "\<dots> = scanDelimiters htmlContent (before @ rest)"
    unfolding d using none by (rule scanDelimiters_skip)
  finally show ?thesis using none by simp
qed

theorem first_occurrence_only_witness:
  "first_occurrence doc_repeated_start (lit ''terms='') 0
   \<and> occurs_at doc_repeated_start (lit ''terms='') 7
   \<and> tryDelimiter (drop 7 doc_repeated_start) (lit ''terms='', lit ''&'') = Some (lit ''abc'')
   \<and> tryDelimiter doc_repeated_start (lit ''terms='', lit ''&'') = None
   \<and> extractKeywordsFromHtml doc_repeated_start = []"
proof -
  have d: "delimiters = take 2 delimiters @ (lit ''terms='', lit ''&'') # drop 3 delimiters"
    by (simp add: delimiters_def)
  have s: "first_occurrence doc_repeated_start (lit ''terms='') 0"
    by (simp add: first_occurrence_def occurs_at_def doc_repeated_start_def lit_def)
  have e: "\<not> js_includes (drop (0 + length (lit ''terms='')) doc_repeated_start) (lit ''&'')
     \<or> (first_occurrence (drop (0 + length (lit ''terms='')) doc_repeated_start) (lit ''&'') 0
        \<and> trim (take 0 (drop (0 + length (lit ''terms='')) doc_repeated_start)) = [])"
    by (simp add: first_occurrence_def occurs_at_def doc_repeated_start_def lit_def trim_def)
  have r: "scanDelimiters doc_repeated_start (take 2 delimiters @ drop 3 delimiters) = []"
    by (simp add: delimiters_def doc_repeated_start_def string_eval)
  have o: "occurs_at doc_repeated_start (lit ''terms='') 7"
    by (simp add: occurs_at_def doc_repeated_start_def lit_def)
  have l: "tryDelimiter (drop 7 doc_repeated_start) (lit ''terms='', lit ''&'') = Some (lit ''abc'')"
    by (simp add: doc_repeated_start_def string_eval)
  from first_occurrence_only [OF d s refl e] r s o l show ?thesis by simp
qed

lemma scanDelimiters_hit:
  "tryDelimiter h p = Some k \<Longrightarrow> scanDelimiters h (p # ps) = k"
  by simp

lemma tryDelimiter_no_pattern:
  "\<not> pattern_occurs h (s, e) \<Longrightarrow> tryDelimiter h (s, e) = None"
  using tryDelimiter_Some_pattern [of h s e] by (cases "tryDelimiter h (s, e)") auto

text \<open>
  Claim C8 as stated fails on the third part. The document \<open>doc_blank_first\<close> contains the
  entity-escaped \<open>terms\<close> pair (twice, the second time around the text \<open>x\<close>) and both
  plain \<open>terms\<close> pairs, yet the entity-escaped pair yields nothing, because the text after
  the first occurrence of its start delimiter is blank, and the result is \<open>abc\<close>, the text of
  the plain pair.
\<close>

theorem extractKeywordsFromHtml_priority_counterexample:
  "pattern_occurs doc_blank_first (delimiters ! 0)
   \<and> pattern_occurs doc_blank_first (delimiters ! 1)
   \<and> pattern_occurs doc_blank_first (delimiters ! 2)
   \<and> js_includes doc_blank_first (fst (delimiters ! 0) @ lit ''x'' @ snd (delimiters ! 0))
   \<and> tryDelimiter doc_blank_first (delimiters ! 0) = None
   \<and> tryDelimiter doc_blank_first (delimiters ! 1) = Some (lit ''abc'')
   \<and> extractKeywordsFromHtml doc_blank_first = lit ''abc''"
proof -
  have t0: "tryDelimiter doc_blank_first (delimiters ! 0) = None"
    by (simp add: doc_blank_first_def delimiters_def string_eval)
  have t1: "tryDelimiter doc_blank_first (delimiters ! 1) = Some (lit ''abc'')"
    by (simp add: doc_blank_first_def delimiters_def string_eval)
  have t2: "tryDelimiter doc_blank_first (delimiters ! 2) = Some (lit ''def'')"
    by (simp add: doc_blank_first_def delimiters_def string_eval)
  have ne: "doc_blank_first \<noteq> []" by (simp add: doc_blank_first_def lit_def)
  have "scanDelimiters doc_blank_first delimiters
      = scanDelimiters doc_blank_first (delimiters ! 0 # delimiters ! 1 # drop 2 delimiters)"
    by (simp add: delimiters_def)
  also have "\<dots> = lit ''abc''" using t0 t1 by simp
  finally have r: "extractKeywordsFromHtml doc_blank_first = lit ''abc''"
    using ne by (simp add: extractKeywordsFromHtml_def)
  have o: "occurs_at doc_blank_first (fst (delimiters ! 0)) 0"
    by (simp add: occurs_at_def doc_blank_first_def delimiters_def lit_def)
  have i: "js_includes (drop (0 + length (fst (delimiters ! 0))) doc_blank_first) (snd (delimiters ! 0))"
    by (simp add: doc_blank_first_def delimiters_def lit_def includes_indexOf)
  have p0: "pattern_occurs doc_blank_first (delimiters ! 0)"
    using pattern_occursI [OF o i] by simp
  have p1: "pattern_occurs doc_blank_first (delimiters ! 1)"
    using t1 tryDelimiter_Some_pattern [of doc_blank_first "fst (delimiters ! 1)" "snd (delimiters ! 1)"]
    by simp
  have p2: "pattern_occurs doc_blank_first (delimiters ! 2)"
    using t2 tryDelimiter_Some_pattern [of doc_blank_first "fst (delimiters ! 2)" "snd (delimiters ! 2)"]
    by simp
  have x: "js_includes doc_blank_first (fst (delimiters ! 0) @ lit ''x'' @ snd (delimiters ! 0))"
    by (simp add: doc_blank_first_def delimiters_def lit_def includes_indexOf)
  from p0 p1 p2 x t0 t1 r show ?thesis by blast
qed

text \<open>
  Claim C8, as the code has it. \<open>extractKeywordsFromHtml\<close> depends on its argument alone:
  equal documents give equal results. A document in which no delimiter pair occurs (for no pair
  is there a start delimiter with the end delimiter somewhere after it) gives the empty string.
  The entity-escaped \<open>terms\<close> pair is the first of the list, and it wins over every other
  pair when the first occurrence of its start delimiter is followed by its end delimiter with
  text between them that does not trim to the empty string; the result is then that trimmed
  text, whether or not the plain patterns occur as well.

  The counterexample before it shows why the condition on the first occurrence is needed: the
  document contains the entity-escaped pair (even with the non-empty text \<open>x\<close> at its second
  occurrence) and both plain pairs, and the result is \<open>abc\<close>, the text of the plain pair.
\<close>

theorem extractKeywordsFromHtml_pure_priority:
  assumes "hd delimiters = (startDelim, endDelim)"
  shows "(h = h' \<longrightarrow> extractKeywordsFromHtml h = extractKeywordsFromHtml h')
    \<and> ((\<forall>p\<in>set delimiters. \<not> pattern_occurs h p) \<longrightarrow> extractKeywordsFromHtml h = [])
    \<and> (first_occurrence h startDelim i
        \<and> first_occurrence (drop (i + length startDelim) h) endDelim j
        \<and> trim (take j (drop (i + length startDelim) h)) \<noteq> []
       \<longrightarrow> extractKeywordsFromHtml h = trim (take j (drop (i + length startDelim) h)))"
proof (intro conjI impI)
  assume "h = h'"
  then show "extractKeywordsFromHtml h = extractKeywordsFromHtml h'" by simp
next
  assume n: "\<forall>p\<in>set delimiters. \<not> pattern_occurs h p"
  have "\<forall>p\<in>set delimiters. tryDelimiter h p = None"
  proof
    fix p assume "p \<in> set delimiters"
    with n have "\<not> pattern_occurs h p" by blast
    then show "tryDelimiter h p = None" by (cases p) (simp add: tryDelimiter_no_pattern)
  qed
  then have "scanDelimiters h delimiters = []" by (rule scanDelimiters_none)
  then show "extractKeywordsFromHtml h = []" by (simp add: extractKeywordsFromHtml_def)
next
  assume a: "first_occurrence h startDelim i
        \<and> first_occurrence (drop (i + length startDelim) h) endDelim j
        \<and> trim (take j (drop (i + length startDelim) h)) \<noteq> []"
  let ?k = "trim (take j (drop (i + length startDelim) h))"
  from a have a1: "first_occurrence h startDelim i"
    and a2: "first_occurrence (drop (i + length startDelim) h) endDelim j"
    and a3: "?k \<noteq> []" by simp_all
  have t: "tryDelimiter h (startDelim, endDelim) = Some ?k"
    unfolding tryDelimiter_first [OF a1 a2] using a3 by (simp add: Let_def)
  have "delimiters = (startDelim, endDelim) # tl delimiters"
    using assms by (simp add: delimiters_def)
  then have "scanDelimiters h delimiters = scanDelimiters h ((startDelim, endDelim) # tl delimiters)"
    by simp
  also have "\<dots> = ?k" using t by (rule scanDelimiters_hit)
  finally have "scanDelimiters h delimiters = ?k" .
  moreover have "h \<noteq> []" using a3 by (auto simp: trim_def)
  ultimately show "extractKeywordsFromHtml h = ?k" by (simp add: extractKeywordsFromHtml_def)
qed

theorem extractKeywordsFromHtml_pure_priority_witness:
  "hd delimiters = (lit ''&quot;terms&quot;:&quot;'', lit ''&quot;,'')
   \<and> pattern_occurs doc_entity_and_plain (delimiters ! 1)
   \<and> extractKeywordsFromHtml doc_entity_and_plain = lit ''a b''
   \<and> \<not> list_ex (pattern_occurs (lit ''terms=abc'')) delimiters
   \<and> extractKeywordsFromHtml (lit ''terms=abc'') = []"
proof -
  let ?s = "lit ''&quot;terms&quot;:&quot;''" and ?e = "lit ''&quot;,''"
  have d: "hd delimiters = (?s, ?e)" by (simp add: delimiters_def)
  have i: "first_occurrence doc_entity_and_plain ?s 0"
    by (simp add: indexOf_first [symmetric] doc_entity_and_plain_def lit_def)
  have j: "first_occurrence (drop (0 + length ?s) doc_entity_and_plain) ?e 4"
    by (simp add: indexOf_first [symmetric] doc_entity_and_plain_def lit_def)
  have k: "trim (take 4 (drop (0 + length ?s) doc_entity_and_plain)) = lit ''a b''"
    by (simp add: doc_entity_and_plain_def lit_def trim_def is_js_space_def)
  have k': "lit ''a b'' \<noteq> []" by (simp add: lit_def)
  have "tryDelimiter doc_entity_and_plain (delimiters ! 1) = Some (lit ''c'')"
    by (simp add: doc_entity_and_plain_def delimiters_def string_eval)
  then have p: "pattern_occurs doc_entity_and_plain (delimiters ! 1)"
    using tryDelimiter_Some_pattern [of doc_entity_and_plain "fst (delimiters ! 1)" "snd (delimiters ! 1)"]
    by simp
  have n: "\<forall>p\<in>set delimiters. \<not> pattern_occurs (lit ''terms=abc'') p"
    by (simp add: delimiters_def pattern_occurs_def occurs_at_def string_eval)
  note t1 = extractKeywordsFromHtml_pure_priority
      [OF d, of doc_entity_and_plain doc_entity_and_plain 0 4]
  note t2 = extractKeywordsFromHtml_pure_priority
      [OF d, of "lit ''terms=abc''" "lit ''terms=abc''" 0 0]
  from t1 i j k k' have r1: "extractKeywordsFromHtml doc_entity_and_plain = lit ''a b''" by simp
  from t2 n have r2: "extractKeywordsFromHtml (lit ''terms=abc'') = []" by blast
  from n have n': "\<not> list_ex (pattern_occurs (lit ''terms=abc'')) delimiters"
    by (simp add: list_ex_iff)
  from d p r1 n' r2 show ?thesis by blast
qed


section \<open>Properties of the browser pool\<close>

lemma getBrowser_attempt_ready:
  assumes "can_acquire env k s"
  shows "\<exists>r s' tr'. getBrowser_attempt env k s = (r, s', tr') \<and> r \<noteq> MustWait
           \<and> (\<forall>ms. EvSleep ms \<notin> set tr')"
  using assms
  by (auto simp: getBrowser_attempt_def can_acquire_def Let_def split: outcome.splits if_splits)

lemma getBrowser_attempt_busy:
  assumes "\<not> can_acquire env k s"
  shows "\<exists>s' tr'. getBrowser_attempt env k s = (MustWait, s', tr' @ [EvSleep 1000])
           \<and> (\<forall>ms. EvSleep ms \<notin> set tr')"
  using assms
  by (auto simp: getBrowser_attempt_def can_acquire_def Let_def split: if_splits)

lemma getBrowser_done:
  assumes "getBrowser_attempt env k s = (r, s', tr')" and "r \<noteq> MustWait"
  shows "\<exists>res. getBrowser env k s tr = Some (res, s', tr @ tr')"
  using assms by (subst getBrowser.simps) (cases r; simp)

lemma getBrowser_retry:
  assumes "getBrowser_attempt env k s = (MustWait, s', tr')"
  shows "getBrowser env k s tr = getBrowser env (Suc k) (during_sleep env k s') (tr @ tr')"
  using assms by (subst getBrowser.simps) simp

lemma getBrowser_bounded:
  assumes "can_acquire env (k + n) (state_at_poll env k s n)"
  shows "\<exists>res s' tr. getBrowser env k s tr0 = Some (res, s', tr0 @ tr)
           \<and> count_list tr (EvSleep 1000) \<le> n
           \<and> (\<forall>ms. EvSleep ms \<in> set tr \<longrightarrow> ms = 1000)
           \<and> (\<not> can_acquire env k s \<longrightarrow> EvSleep 1000 \<in> set tr)"
  using assms
proof (induction n arbitrary: k s tr0)
  case 0
  then have c: "can_acquire env k s" by simp
  from getBrowser_attempt_ready [OF c] obtain r s' tr'
    where a: "getBrowser_attempt env k s = (r, s', tr')" and r: "r \<noteq> MustWait"
      and n: "\<forall>ms. EvSleep ms \<notin> set tr'" by blast
  from getBrowser_done [OF a r] obtain res where "getBrowser env k s tr0 = Some (res, s', tr0 @ tr')"
    by blast
  moreover from n have "count_list tr' (EvSleep 1000) = 0" by (simp add: count_list_0_iff)
  ultimately show ?case using n c by auto
next
  case (Suc n)
  show ?case
  proof (cases "can_acquire env k s")
    case True
    from getBrowser_attempt_ready [OF True] obtain r s' tr'
      where a: "getBrowser_attempt env k s = (r, s', tr')" and r: "r \<noteq> MustWait"
        and n: "\<forall>ms. EvSleep ms \<notin> set tr'" by blast
    from getBrowser_done [OF a r] obtain res where "getBrowser env k s tr0 = Some (res, s', tr0 @ tr')"
      by blast
    moreover from n have "count_list tr' (EvSleep 1000) = 0" by (simp add: count_list_0_iff)
    ultimately show ?thesis using n True by auto
  next
    case False
    from getBrowser_attempt_busy [OF False] obtain s1 tr1
      where a: "getBrowser_attempt env k s = (MustWait, s1, tr1 @ [EvSleep 1000])"
        and n: "\<forall>ms. EvSleep ms \<notin> set tr1" by blast
    from Suc.prems a have "can_acquire env (Suc k + n) (state_at_poll env (Suc k) (during_sleep env k s1) n)"
      by simp
    from Suc.IH [OF this, of "tr0 @ tr1 @ [EvSleep 1000]"] obtain res s' tr
      where g: "getBrowser env (Suc k) (during_sleep env k s1) (tr0 @ tr1 @ [EvSleep 1000])
                  = Some (res, s', (tr0 @ tr1 @ [EvSleep 1000]) @ tr)"
        and c: "count_list tr (EvSleep 1000) \<le> n"
        and m: "\<forall>ms. EvSleep ms \<in> set tr \<longrightarrow> ms = 1000" by blast
    from getBrowser_retry [OF a, of tr0] g
    have "getBrowser env k s tr0 = Some (res, s', tr0 @ (tr1 @ [EvSleep 1000] @ tr))" by simp
    moreover from n have "count_list tr1 (EvSleep 1000) = 0" by (simp add: count_list_0_iff)
    with c have "count_list (tr1 @ [EvSleep 1000] @ tr) (EvSleep 1000) \<le> Suc n" by simp
    moreover from n m have "\<forall>ms. EvSleep ms \<in> set (tr1 @ [EvSleep 1000] @ tr) \<longrightarrow> ms = 1000" by auto
    moreover have "EvSleep 1000 \<in> set (tr1 @ [EvSleep 1000] @ tr)" by simp
    ultimately show ?thesis by blast
  qed
qed

text \<open>
  Claim C9. When the pool is at capacity and holds no live idle session, \<open>getBrowser\<close>
  sleeps one second and tries again. If at the \<open>n\<close>-th poll (counting from 0, the pool
  being what the other jobs and the earlier polls have left) a live idle session or free
  capacity is there, then the call returns, it has slept at most \<open>n\<close> times, every sleep
  is of 1000 ms, and it has slept at least once when the first attempt could not acquire.
\<close>

theorem getBrowser_poll_terminates:
  assumes "can_acquire env n (state_at_poll env 0 s n)"
  shows "\<exists>res s' tr. getBrowser env 0 s [] = Some (res, s', tr)
           \<and> count_list tr (EvSleep 1000) \<le> n
           \<and> (\<forall>ms. EvSleep ms \<in> set tr \<longrightarrow> ms = 1000)
           \<and> (\<not> can_acquire env 0 s \<longrightarrow> EvSleep 1000 \<in> set tr)"
  using getBrowser_bounded [of env 0 n s "[]"] assms by simp


lemma getBrowser_acquired:
  "getBrowser_attempt env k s = (Acquired b, s', tr') \<Longrightarrow>
   getBrowser env k s tr = Some (Resolves b, s', tr @ tr')"
  by (subst getBrowser.simps) simp

lemma getBrowser_launch_failed:
  "getBrowser_attempt env k s = (LaunchFailed msg, s', tr') \<Longrightarrow>
   getBrowser env k s tr = Some (Rejects msg, s', tr @ tr')"
  by (subst getBrowser.simps) simp

lemma getBrowser_returns_ready:
  assumes "getBrowser env k s tr = Some y"
  shows "\<exists>n. can_acquire env (k + n) (state_at_poll env k s n)"
  using assms
proof (induction env k s tr y rule: getBrowser.raw_induct [rotated 1, consumes 1])
  case (1 getBrowser' env k s tr y)
  show ?case
  proof (cases "can_acquire env k s")
    case True
    then have "can_acquire env (k + 0) (state_at_poll env k s 0)" by simp
    then show ?thesis by blast
  next
    case False
    from getBrowser_attempt_busy [OF False] obtain s1 tr1
      where a: "getBrowser_attempt env k s = (MustWait, s1, tr1 @ [EvSleep 1000])" by blast
    with 1(2) have "getBrowser' env (Suc k) (during_sleep env k s1) (tr @ tr1 @ [EvSleep 1000]) = Some y"
      by simp
    from 1(1) [OF this] obtain n
      where "can_acquire env (Suc k + n) (state_at_poll env (Suc k) (during_sleep env k s1) n)"
      by blast
    with a have "can_acquire env (k + Suc n) (state_at_poll env k s (Suc n))" by simp
    then show ?thesis by blast
  qed
qed

lemma getBrowser_polls_forever:
  "(\<forall>n. \<not> can_acquire env (k + n) (state_at_poll env k s n)) \<Longrightarrow> getBrowser env k s tr = None"
  using getBrowser_returns_ready [of env k s tr] by (cases "getBrowser env k s tr") auto

theorem getBrowser_poll_terminates_witness:
  "\<not> can_acquire (release_env 7) 0 \<lparr>browserPool = [], activeBrowsers = 3\<rparr>
   \<and> can_acquire (release_env 7) 1 (state_at_poll (release_env 7) 0 \<lparr>browserPool = [], activeBrowsers = 3\<rparr> 1)
   \<and> getBrowser (release_env 7) 0 \<lparr>browserPool = [], activeBrowsers = 3\<rparr> []
       = Some (Resolves 7, \<lparr>browserPool = [], activeBrowsers = 3\<rparr>, [EvSleep 1000, EvVersion 7])
   \<and> count_list [EvSleep 1000, EvVersion 7] (EvSleep 1000) \<le> 1"
proof -
  let ?s = "\<lparr>browserPool = [], activeBrowsers = 3\<rparr>"
  have a0: "getBrowser_attempt (release_env 7) 0 ?s = (MustWait, ?s, [EvSleep 1000])"
    by (simp add: getBrowser_attempt_def release_env_def MAX_BROWSERS_def)
  have a1: "getBrowser_attempt (release_env 7) (Suc 0) \<lparr>browserPool = [7], activeBrowsers = 3\<rparr>
      = (Acquired 7, ?s, [EvVersion 7])"
    by (simp add: getBrowser_attempt_def release_env_def MAX_BROWSERS_def)
  have n: "\<not> can_acquire (release_env 7) 0 ?s"
    by (simp add: can_acquire_def MAX_BROWSERS_def)
  have c: "can_acquire (release_env 7) 1 (state_at_poll (release_env 7) 0 ?s 1)"
    using a0 by (simp add: can_acquire_def release_env_def)
  have "getBrowser (release_env 7) 0 ?s []
      = getBrowser (release_env 7) (Suc 0) \<lparr>browserPool = [7], activeBrowsers = 3\<rparr> [EvSleep 1000]"
    using getBrowser_retry [OF a0, of "[]"] by (simp add: release_env_def)
  also have "\<dots> = Some (Resolves 7, ?s, [EvSleep 1000, EvVersion 7])"
    using getBrowser_acquired [OF a1, of "[EvSleep 1000]"] by simp
  finally have g: "getBrowser (release_env 7) 0 ?s [] = Some (Resolves 7, ?s, [EvSleep 1000, EvVersion 7])" .
  from getBrowser_poll_terminates [OF c] g n c show ?thesis by simp
qed

text \<open>
  Claim C4 at a concrete pool. One session has been launched and returned, so the pool holds it
  and the counter is 1; the session has died. The next \<open>getBrowser\<close> pops it, its health
  check fails, and a new session is launched: the dead one is not put back, but the counter
  goes from 1 to 2 although a single live session exists. The counter is not decremented
  where the dead session is discarded.
\<close>

theorem dead_session_keeps_counter:
  "getBrowser (quiet_env (\<lambda>b. False) 2) 0 \<lparr>browserPool = [1], activeBrowsers = 1\<rparr> []
     = Some (Resolves 2, \<lparr>browserPool = [], activeBrowsers = 2\<rparr>, [EvVersion 1, EvLaunch])"
proof -
  have "getBrowser_attempt (quiet_env (\<lambda>b. False) 2) 0 \<lparr>browserPool = [1], activeBrowsers = 1\<rparr>
      = (Acquired 2, \<lparr>browserPool = [], activeBrowsers = 2\<rparr>, [EvVersion 1, EvLaunch])"
    by (simp add: getBrowser_attempt_def quiet_env_def MAX_BROWSERS_def)
  from getBrowser_acquired [OF this, of "[]"] show ?thesis by simp
qed

text \<open>
  The same holds at every pool: when the session on top of the pool is dead and no other job
  interferes during the health check, the attempt leaves the counter as it was or one higher,
  never lower, and the dead session is no longer in the pool.
\<close>

lemma dead_session_never_decrements:
  assumes "browserPool s \<noteq> []" and "\<not> version_resolves env k (last (browserPool s))"
    and "during_version env k = (\<lambda>s. s)"
  shows "activeBrowsers s \<le> activeBrowsers (fst (snd (getBrowser_attempt env k s)))
       \<and> browserPool (fst (snd (getBrowser_attempt env k s))) = butlast (browserPool s)"
  using assms by (simp add: getBrowser_attempt_def Let_def split: outcome.splits)

text \<open>
  With the counter at capacity the same defect blocks the pool for good: the dead session is
  popped, nothing is launched, and every later poll finds an empty pool and a full counter.
\<close>

lemma dead_pool_state:
  "state_at_poll (quiet_env (\<lambda>b. False) f) k \<lparr>browserPool = [], activeBrowsers = 3\<rparr> n
     = \<lparr>browserPool = [], activeBrowsers = 3\<rparr>"
  by (induction n arbitrary: k) (simp_all add: getBrowser_attempt_def quiet_env_def MAX_BROWSERS_def)

lemma dead_pool_never_acquires:
  "getBrowser (quiet_env (\<lambda>b. False) f) 0 \<lparr>browserPool = [1], activeBrowsers = 3\<rparr> [] = None"
proof (rule getBrowser_polls_forever, rule allI)
  fix n
  let ?e = "quiet_env (\<lambda>b. False) f"
  show "\<not> can_acquire ?e (0 + n) (state_at_poll ?e 0 \<lparr>browserPool = [1], activeBrowsers = 3\<rparr> n)"
  proof (cases n)
    case 0
    then show ?thesis by (simp add: can_acquire_def quiet_env_def MAX_BROWSERS_def)
  next
    case (Suc m)
    have "getBrowser_attempt ?e 0 \<lparr>browserPool = [1], activeBrowsers = 3\<rparr>
        = (MustWait, \<lparr>browserPool = [], activeBrowsers = 3\<rparr>, [EvVersion 1, EvSleep 1000])"
      by (simp add: getBrowser_attempt_def quiet_env_def MAX_BROWSERS_def)
    then have "state_at_poll ?e 0 \<lparr>browserPool = [1], activeBrowsers = 3\<rparr> (Suc m)
        = state_at_poll ?e (Suc 0) \<lparr>browserPool = [], activeBrowsers = 3\<rparr> m"
      by (simp add: quiet_env_def)
    also have "\<dots> = \<lparr>browserPool = [], activeBrowsers = 3\<rparr>" by (rule dead_pool_state)
    finally show ?thesis using Suc by (simp add: can_acquire_def MAX_BROWSERS_def)
  qed
qed


section \<open>Properties of processUrl\<close>

lemma getBrowser_attempt_events: "list_all pool_event (snd (snd (getBrowser_attempt env k s)))"
  by (simp add: getBrowser_attempt_def Let_def split: outcome.splits)

lemma getBrowser_events_gen:
  assumes "getBrowser env k s tr = Some y"
  shows "\<exists>ext. snd (snd y) = tr @ ext \<and> list_all pool_event ext"
  using assms
proof (induction env k s tr y rule: getBrowser.raw_induct [rotated 1, consumes 1])
  case (1 getBrowser' env k s tr y)
  obtain r s' tr' where a: "getBrowser_attempt env k s = (r, s', tr')"
    by (cases "getBrowser_attempt env k s") auto
  from getBrowser_attempt_events [of env k s] a have e: "list_all pool_event tr'" by simp
  show ?case
  proof (cases r)
    case (Acquired b)
    with 1(2) a e show ?thesis by auto
  next
    case (LaunchFailed m)
    with 1(2) a e show ?thesis by auto
  next
    case MustWait
    with 1(2) a have "getBrowser' env (Suc k) (during_sleep env k s') (tr @ tr') = Some y" by simp
    from 1(1) [OF this] obtain ext where "snd (snd y) = (tr @ tr') @ ext" and "list_all pool_event ext"
      by blast
    with e have "snd (snd y) = tr @ (tr' @ ext) \<and> list_all pool_event (tr' @ ext)" by simp
    then show ?thesis by blast
  qed
qed

lemma getBrowser_events:
  "getBrowser env 0 s [] = Some (r, s', tr) \<Longrightarrow> list_all pool_event tr"
  using getBrowser_events_gen [of env 0 s "[]" "(r, s', tr)"] by simp





lemma processUrl_acquired:
  assumes "getBrowser penv 0 s [] = Some (Resolves b, s1, tr0)"
  shows "processUrl penv env url country s =
     Some (resultOf env (tryBody env url),
           fst (returnBrowser (Some b) (during_job env s1)),
           tr0 @ snd (tryBody env url)
             @ (if newPage_result env = Resolves () then [EvClosePage] else [])
             @ EvReturnBrowser b # snd (returnBrowser (Some b) (during_job env s1)))"
  using assms
  by (simp add: processUrl_def resultOf_def Let_def split: prod.splits outcome.splits)

lemma processUrl_launch_failed:
  assumes "getBrowser penv 0 s [] = Some (Rejects msg, s1, tr0)"
  shows "processUrl penv env url country s = Some (failure env msg, during_job env s1, tr0)"
  using assms by (simp add: processUrl_def Let_def)

lemma processUrl_never:
  "getBrowser penv 0 s [] = None \<Longrightarrow> processUrl penv env url country s = None"
  by (simp add: processUrl_def)

lemmas body_defs = tryBody_def navigate_def extractAll_def retryAfterCookies_def io_bind_def
  await_def


lemma pool_event_not_page:
  assumes "list_all pool_event tr"
  shows "EvClosePage \<notin> set tr" and "EvReturnBrowser b \<notin> set tr"
    and "EvExtractHtml \<notin> set tr" and "EvExtractSurface \<notin> set tr"
    and "EvAcceptCookies \<notin> set tr" and "EvContent \<notin> set tr"
  using assms by (auto simp: list_all_iff)

lemma tryBody_result:
  "(\<not> success (resultOf env (tryBody env url)) \<longrightarrow>
      scraped_keywords (resultOf env (tryBody env url)) = []
      \<and> surface_keywords (resultOf env (tryBody env url)) = [])
   \<and> processing_time_ms (resultOf env (tryBody env url)) = clock_end env - clock_start env"
  by (simp add: resultOf_def body_defs failure_def split: outcome.splits prod.splits)


lemma launch_on_empty_pool:
  "getBrowser (quiet_env (\<lambda>b. True) 5) 0 empty_pool []
     = Some (Resolves 5, \<lparr>browserPool = [], activeBrowsers = 1\<rparr>, [EvLaunch])"
proof -
  have "getBrowser_attempt (quiet_env (\<lambda>b. True) 5) 0 empty_pool
      = (Acquired 5, \<lparr>browserPool = [], activeBrowsers = 1\<rparr>, [EvLaunch])"
    by (simp add: getBrowser_attempt_def quiet_env_def empty_pool_def MAX_BROWSERS_def)
  from getBrowser_acquired [OF this, of "[]"] show ?thesis by simp
qed

text \<open>
  Claim C1 as stated fails on the sign of the time. \<open>processing_time_ms\<close> is the difference
  of two readings of \<open>Date.now()\<close>, the wall clock, which can be set back while a job runs:
  with the readings 5000 at entry and 4000 at the end, a successful run returns
  \<open>processing_time_ms = -1000\<close>.
\<close>

theorem processing_time_negative_counterexample:
  "processUrl (quiet_env (\<lambda>b. True) 5)
      ((steady_page (lit ''terms=x&'') [])\<lparr>clock_start := 5000, clock_end := 4000\<rparr>)
      (lit ''http://a.b/'') (lit ''Unknown'') empty_pool
     = Some (\<lparr>scraped_keywords = lit ''x'', surface_keywords = [], success = True,
              error = [], processing_time_ms = - 1000\<rparr>,
             \<lparr>browserPool = [5], activeBrowsers = 1\<rparr>,
             [EvLaunch, EvNewPage, EvSetRequestInterception, EvSetUserAgent, EvSetViewport,
              EvGoto (lit ''http://a.b/''), EvWaitForTimeout 2000,
              EvContent, EvExtractHtml, EvExtractSurface, EvClosePage, EvReturnBrowser 5])
   \<and> \<not> (0::int) \<le> - 1000"
proof -
  have k: "extractKeywordsFromHtml (lit ''terms=x&'') = lit ''x''"
    by (simp add: extractKeywordsFromHtml_def delimiters_def string_eval)
  have n: "lit ''x'' \<noteq> []" by (simp add: lit_def)
  show ?thesis
    unfolding processUrl_acquired [OF launch_on_empty_pool]
    using k n
    by (simp add: resultOf_def body_defs steady_page_def returnBrowser_def MAX_BROWSERS_def
        extractSurfaceKeywords_def)
qed

text \<open>
  Claim C1, as the code has it. Every run of \<open>processUrl\<close> that returns gives a result in
  which \<open>success = false\<close> implies that both keyword fields are empty, and whose
  \<open>processing_time_ms\<close> is set, on every path, success or failure, to the integer difference
  of the reading of \<open>Date.now()\<close> where the result is built and the reading at entry. It is
  non-negative whenever the second reading is not earlier than the first.
\<close>

theorem processUrl_result_invariant:
  assumes run: "processUrl penv env url country s = Some (res, s', tr)"
  shows "(\<not> success res \<longrightarrow> scraped_keywords res = [] \<and> surface_keywords res = [])
       \<and> processing_time_ms res = clock_end env - clock_start env
       \<and> (clock_start env \<le> clock_end env \<longrightarrow> 0 \<le> processing_time_ms res)"
proof -
  have main: "(\<not> success res \<longrightarrow> scraped_keywords res = [] \<and> surface_keywords res = [])
       \<and> processing_time_ms res = clock_end env - clock_start env"
  proof (cases "getBrowser penv 0 s []")
    case None
    with run show ?thesis by (simp add: processUrl_never)
  next
    case (Some y)
    obtain acquired s1 tr0 where y: "y = (acquired, s1, tr0)" by (cases y) auto
    show ?thesis
    proof (cases acquired)
      case (Resolves b)
      with Some y have "getBrowser penv 0 s [] = Some (Resolves b, s1, tr0)" by simp
      from processUrl_acquired [OF this, of env url country] run
      have "res = resultOf env (tryBody env url)" by simp
      with tryBody_result [of env url] show ?thesis by simp
    next
      case (Rejects msg)
      with Some y have "getBrowser penv 0 s [] = Some (Rejects msg, s1, tr0)" by simp
      from processUrl_launch_failed [OF this, of env url country] run
      have "res = failure env msg" by simp
      then show ?thesis by (simp add: failure_def)
    qed
  qed
  then show ?thesis by simp
qed

theorem processUrl_result_invariant_witness:
  "processUrl (quiet_env (\<lambda>b. True) 5) ((steady_page [] [])\<lparr>content_result := (\<lambda>n. Rejects (lit ''detached''))\<rparr>)
      (lit ''http://a.b/'') (lit ''Unknown'') empty_pool
     = Some (\<lparr>scraped_keywords = [], surface_keywords = [], success = False,
              error = lit ''detached'', processing_time_ms = 3500\<rparr>,
             \<lparr>browserPool = [5], activeBrowsers = 1\<rparr>,
             [EvLaunch, EvNewPage, EvSetRequestInterception, EvSetUserAgent, EvSetViewport,
              EvGoto (lit ''http://a.b/''), EvWaitForTimeout 2000, EvContent,
              EvClosePage, EvReturnBrowser 5])
   \<and> (0::int) \<le> 3500"
proof -
  let ?env = "(steady_page [] [])\<lparr>content_result := (\<lambda>n. Rejects (lit ''detached''))\<rparr>"
  have run: "processUrl (quiet_env (\<lambda>b. True) 5) ?env (lit ''http://a.b/'') (lit ''Unknown'') empty_pool
     = Some (\<lparr>scraped_keywords = [], surface_keywords = [], success = False,
              error = lit ''detached'', processing_time_ms = 3500\<rparr>,
             \<lparr>browserPool = [5], activeBrowsers = 1\<rparr>,
             [EvLaunch, EvNewPage, EvSetRequestInterception, EvSetUserAgent, EvSetViewport,
              EvGoto (lit ''http://a.b/''), EvWaitForTimeout 2000, EvContent,
              EvClosePage, EvReturnBrowser 5])"
    unfolding processUrl_acquired [OF launch_on_empty_pool]
    by (simp add: resultOf_def body_defs failure_def steady_page_def returnBrowser_def MAX_BROWSERS_def)
  have clock: "clock_start ?env \<le> clock_end ?env" by (simp add: steady_page_def)
  from processUrl_result_invariant [OF run] clock run show ?thesis by simp
qed








text \<open>
  Claim C6. When \<open>page.goto\<close> rejects with message \<open>msg\<close>, the run returns the failure
  record with \<open>success = false\<close>, the error \<open>Timeout: msg\<close> and both keyword fields
  empty. After \<open>goto\<close> only the page is closed and the session returned: the document is
  not read, neither extraction strategy runs and \<open>acceptCookies\<close> is not called.
\<close>

theorem navigation_failure_returns_at_once:
  assumes acq: "getBrowser penv 0 s [] = Some (Resolves b, s1, tr0)"
    and page: "newPage_result env = Resolves ()"
    and prep: "setRequestInterception_result env = Resolves ()"
      "setUserAgent_result env = Resolves ()" "setViewport_result env = Resolves ()"
    and nav: "goto_result env = Rejects msg"
  shows "\<exists>tr. processUrl penv env url country s =
           Some (\<lparr>scraped_keywords = [], surface_keywords = [], success = False,
                  error = lit ''Timeout: '' @ msg,
                  processing_time_ms = clock_end env - clock_start env\<rparr>,
                 fst (returnBrowser (Some b) (during_job env s1)), tr)
         \<and> tr = tr0 @ [EvNewPage, EvSetRequestInterception, EvSetUserAgent, EvSetViewport,
                        EvGoto url, EvClosePage, EvReturnBrowser b]
                   @ snd (returnBrowser (Some b) (during_job env s1))
         \<and> EvContent \<notin> set tr \<and> EvExtractHtml \<notin> set tr \<and> EvExtractSurface \<notin> set tr
         \<and> EvAcceptCookies \<notin> set tr"
proof -
  have body: "tryBody env url =
      (Resolves (failure env (lit ''Timeout: '' @ msg)),
       [EvNewPage, EvSetRequestInterception, EvSetUserAgent, EvSetViewport, EvGoto url])"
    using page prep nav by (simp add: body_defs)
  from getBrowser_events [OF acq] have p: "list_all pool_event tr0" .
  have "EvContent \<notin> set (snd (returnBrowser (Some b) (during_job env s1)))"
    "EvExtractHtml \<notin> set (snd (returnBrowser (Some b) (during_job env s1)))"
    "EvExtractSurface \<notin> set (snd (returnBrowser (Some b) (during_job env s1)))"
    "EvAcceptCookies \<notin> set (snd (returnBrowser (Some b) (during_job env s1)))"
    by (simp_all add: returnBrowser_def)
  with pool_event_not_page(3-6) [OF p] processUrl_acquired [OF acq, of env url country] body page
  show ?thesis by (simp add: resultOf_def failure_def)
qed

theorem navigation_failure_returns_at_once_witness:
  "processUrl (quiet_env (\<lambda>b. True) 5) ((steady_page [] [])\<lparr>goto_result := Rejects (lit ''15000 ms exceeded'')\<rparr>)
      (lit ''http://a.b/'') (lit ''Unknown'') empty_pool
     = Some (\<lparr>scraped_keywords = [], surface_keywords = [], success = False,
              error = lit ''Timeout: 15000 ms exceeded'', processing_time_ms = 3500\<rparr>,
             \<lparr>browserPool = [5], activeBrowsers = 1\<rparr>,
             [EvLaunch, EvNewPage, EvSetRequestInterception, EvSetUserAgent, EvSetViewport,
              EvGoto (lit ''http://a.b/''), EvClosePage, EvReturnBrowser 5])"
proof -
  let ?env = "(steady_page [] [])\<lparr>goto_result := Rejects (lit ''15000 ms exceeded'')\<rparr>"
  have h: "newPage_result ?env = Resolves ()" "setRequestInterception_result ?env = Resolves ()"
    "setUserAgent_result ?env = Resolves ()" "setViewport_result ?env = Resolves ()"
    "goto_result ?env = Rejects (lit ''15000 ms exceeded'')"
    by (simp_all add: steady_page_def)
  from navigation_failure_returns_at_once [OF launch_on_empty_pool h, of "lit ''http://a.b/''" "lit ''Unknown''"]
  show ?thesis by (simp add: steady_page_def returnBrowser_def MAX_BROWSERS_def lit_def)
qed




















section \<open>Properties of the /extract handler\<close>

lemma extract_request_queued:
  "queuedRequests s = 0 \<Longrightarrow> queuedRequests (snd (extract_request ok j req s)) = 0"
  by (auto simp: extract_request_def MAX_QUEUED_def limit_call_def Let_def split: request.splits)

lemma extract_request_not_busy:
  "queuedRequests s = 0 \<Longrightarrow> fst (extract_request ok j req s) \<noteq> Busy503"
  by (auto simp: extract_request_def MAX_QUEUED_def Let_def split: request.splits)

lemma extract_resume_queued:
  "queuedRequests s = 0 \<Longrightarrow> queuedRequests (snd (extract_resume j b s)) = 0"
  by (auto simp: extract_resume_def limit_settle_def Let_def split: list.splits)

lemma extract_resume_not_busy: "fst (extract_resume j b s) \<noteq> Busy503"
  by (simp add: extract_resume_def Let_def)

lemma server_step_queued:
  assumes "queuedRequests s = 0"
  shows "queuedRequests (snd (server_step ok s e)) = 0"
proof (cases e)
  case (Submit j req)
  from extract_request_queued [OF assms, of ok j req] Submit show ?thesis
    by (auto split: prod.splits)
next
  case (Settle j b)
  from extract_resume_queued [OF assms, of j b] Settle assms show ?thesis
    by (auto split: prod.splits)
qed

lemma server_step_not_busy:
  "queuedRequests s = 0 \<Longrightarrow> fst (server_step ok s e) \<noteq> Some Busy503"
proof (cases e)
  case (Submit j req)
  assume "queuedRequests s = 0"
  from extract_request_not_busy [OF this, of ok j req] Submit show ?thesis
    by (auto split: prod.splits)
next
  case (Settle j b)
  from extract_resume_not_busy [of j b s] Settle show ?thesis
    by (auto split: prod.splits)
qed

lemma server_run_never_busy:
  "queuedRequests s = 0 \<Longrightarrow>
   Some Busy503 \<notin> set (fst (server_run ok s es)) \<and> queuedRequests (snd (server_run ok s es)) = 0"
proof (induction es arbitrary: s)
  case Nil
  then show ?case by simp
next
  case (Cons e es)
  obtain r s' where st: "server_step ok s e = (r, s')" by (cases "server_step ok s e")
  from server_step_queued [OF Cons.prems, of ok e] st have q: "queuedRequests s' = 0" by simp
  from server_step_not_busy [OF Cons.prems, of ok e] st have r: "r \<noteq> Some Busy503" by simp
  from Cons.IH [OF q] st r show ?case by (auto split: prod.splits)
qed

lemma limit_call_running:
  "length (limit_running s) \<le> concurrency \<Longrightarrow> length (limit_running (limit_call j s)) \<le> concurrency"
  by (simp add: limit_call_def)

lemma limit_settle_running:
  assumes "length (limit_running s) \<le> concurrency" and "j \<in> set (limit_running s)"
  shows "length (limit_running (limit_settle j s)) \<le> concurrency"
proof -
  from assms(2) have "length (remove1 j (limit_running s)) = length (limit_running s) - 1"
    by (simp add: length_remove1)
  moreover from assms(2) have "0 < length (limit_running s)" by (cases "limit_running s") auto
  ultimately show ?thesis using assms(1)
    by (auto simp: limit_settle_def Let_def split: list.splits)
qed

lemma server_step_running:
  assumes "length (limit_running s) \<le> concurrency"
  shows "length (limit_running (snd (server_step ok s e))) \<le> concurrency"
proof (cases e)
  case (Submit j req)
  then show ?thesis using assms limit_call_running [of _ j]
    by (auto simp: extract_request_def Let_def limit_call_def split: request.splits)
next
  case (Settle j b)
  then show ?thesis using assms limit_settle_running [of s j]
    by (auto simp: extract_resume_def Let_def)
qed

lemma server_run_running:
  "length (limit_running s) \<le> concurrency \<Longrightarrow>
   length (limit_running (snd (server_run ok s es))) \<le> concurrency"
proof (induction es arbitrary: s)
  case Nil
  then show ?case by simp
next
  case (Cons e es)
  from server_step_running [OF Cons.prems, of ok e]
  have "length (limit_running (snd (server_step ok s e))) \<le> concurrency" .
  from Cons.IH [OF this] show ?case by (auto split: prod.splits)
qed

lemma burst_4: "burst 4 = [Submit 1 (Body (Some (lit ''http://a.b/''))), Submit 2 (Body (Some (lit ''http://a.b/''))),
   Submit 3 (Body (Some (lit ''http://a.b/''))), Submit 4 (Body (Some (lit ''http://a.b/'')))]"
  by (simp add: burst_def upt_rec)

text \<open>
  Claim C2 at a concrete burst. After four valid submissions, none finished, three jobs run
  and one waits in the limiter, but \<open>activeRequests\<close>, the counter the server reports as
  its active requests beside \<open>max_concurrent: 3\<close>, is 4: it is incremented before the
  handler awaits the limiter, so it counts the waiting job too.
\<close>

theorem active_requests_exceed_limit:
  "server_run (\<lambda>u. True) initial_server (burst 4)
     = ([Some Awaiting, Some Awaiting, Some Awaiting, Some Awaiting],
        \<lparr>activeRequests = 4, queuedRequests = 0, limit_running = [1, 2, 3], limit_pending = [4]\<rparr>)"
  by (simp add: burst_4 initial_server_def extract_request_def MAX_QUEUED_def limit_call_def
      concurrency_def lit_def Let_def)

lemma burst_13:
  "server_run (\<lambda>u. True) initial_server (burst 13)
     = ([Some Awaiting, Some Awaiting, Some Awaiting, Some Awaiting, Some Awaiting, Some Awaiting,
         Some Awaiting, Some Awaiting, Some Awaiting, Some Awaiting, Some Awaiting, Some Awaiting,
         Some Awaiting],
        \<lparr>activeRequests = 13, queuedRequests = 0, limit_running = [1, 2, 3],
         limit_pending = [4, 5, 6, 7, 8, 9, 10, 11, 12, 13]\<rparr>)"
  by (simp add: burst_def upt_rec initial_server_def extract_request_def MAX_QUEUED_def limit_call_def
      concurrency_def lit_def Let_def)

text \<open>
  Claim C3 at a concrete burst. Thirteen valid submissions arrive and none has finished: three
  run and ten wait in the limiter, so the number of queued jobs that are not running is 10.
  The fourteenth submission is not rejected: \<open>queuedRequests\<close> is 0 at the call (the handler
  decrements it before it awaits the limiter), the guard \<open>queuedRequests >= MAX_QUEUED\<close>
  is false, the job joins the limiter's queue and \<open>activeRequests\<close> becomes 14.
\<close>

theorem full_queue_still_accepts:
  "length (limit_pending (snd (server_run (\<lambda>u. True) initial_server (burst 13)))) = 10
   \<and> queuedRequests (snd (server_run (\<lambda>u. True) initial_server (burst 13))) = 0
   \<and> extract_request (\<lambda>u. True) 14 (Body (Some (lit ''http://a.b/'')))
        (snd (server_run (\<lambda>u. True) initial_server (burst 13)))
       = (Awaiting,
          \<lparr>activeRequests = 14, queuedRequests = 0, limit_running = [1, 2, 3],
           limit_pending = [4, 5, 6, 7, 8, 9, 10, 11, 12, 13, 14]\<rparr>)"
  by (simp add: burst_13 extract_request_def MAX_QUEUED_def limit_call_def concurrency_def lit_def Let_def)

end
